theory Spec2Isabelle
  imports Main "HOL-Library.AList" "HOL-Library.Multiset"
begin

section \<open>The game session of \<^verbatim>\<open>say_anything.py\<close>\<close>

text \<open>
  The class \<^verbatim>\<open>Game\<close> holds the state of one session. A player (a Discord user or
  member) and a message are compared and hashed by their platform id, so both are
  modelled by that id. Python's \<^verbatim>\<open>str\<close> is modelled by \<open>string\<close>, one \<open>char\<close>
  per code point, which covers the code points below 256. The name of a reaction emoji is
  only ever compared with the two keycap emoji, which lie outside that range: it is a
  datatype with those two names and one constructor for every other name.

  The dictionaries are association lists in insertion order, written with
  \<open>AList.update\<close>: as Python's item assignment does, it replaces the value of a key
  that is present where it stands and appends a new key at the end.

  The field \<^verbatim>\<open>channel\<close> is used for sending only and is left out: sending a message
  changes no field of the game. What the platform and the random generator give back to
  the code is an argument of the model: \<open>post idx\<close> is the id of the message that the
  \<open>idx\<close>-th \<^verbatim>\<open>channel.send\<close> of \<^verbatim>\<open>select_answer\<close> returns, and \<open>rnd\<close> is the list of
  the numbers drawn by one \<^verbatim>\<open>random.shuffle\<close>.
\<close>

type_synonym player = nat
type_synonym message = nat

datatype emoji = KeycapOne | KeycapTwo | OtherEmoji string

datatype error = IndexError | KeyError | StopIteration | ValueError

record game =
  players :: "player list"
  scores :: "(player \<times> int) list"
  setter_index :: int
  question_setter :: "player option"
  question :: "string option"
  answers :: "(player \<times> string) list"
  answer_selection_list :: "(player \<times> string) list option"
  correct_answer :: "player option"
  vote_messages :: "(message \<times> player) list"
  votes :: "(player \<times> int) list"

text \<open>
  A call either returns with the game as it left it (\<open>Inr\<close>) or raises, and then the
  game keeps what the call had already assigned (\<open>Inl\<close> with the exception and that
  game): the object lives on after the exception.
\<close>

type_synonym result = "(error \<times> game) + game"

definition state_of :: "result \<Rightarrow> game" where
  "state_of r = (case r of Inl (e, g) \<Rightarrow> g | Inr g \<Rightarrow> g)"

definition raised :: "result \<Rightarrow> error option" where
  "raised r = (case r of Inl (e, g) \<Rightarrow> Some e | Inr g \<Rightarrow> None)"

text \<open>\<^verbatim>\<open>Game(channel)\<close>: the class attributes and what \<^verbatim>\<open>__init__\<close> assigns.\<close>

definition Game :: game where
  "Game = \<lparr> players = [], scores = [], setter_index = - 1, question_setter = None,
     question = None, answers = [], answer_selection_list = None,
     correct_answer = None, vote_messages = [], votes = [] \<rparr>"

subsection \<open>Python's built-in operations\<close>

text \<open>\<^verbatim>\<open>xs[i]\<close>: a negative index counts from the end, an index out of range raises.\<close>

definition py_index :: "'a list \<Rightarrow> int \<Rightarrow> 'a option" where
  "py_index xs i =
     (if 0 \<le> i \<and> i < int (length xs) then Some (xs ! nat i)
      else if i < 0 \<and> - int (length xs) \<le> i then Some (xs ! nat (int (length xs) + i))
      else None)"

text \<open>\<^verbatim>\<open>str.isspace\<close> and \<^verbatim>\<open>str.isnumeric\<close> on the code points below 256.\<close>

definition is_space :: "char \<Rightarrow> bool" where
  "is_space c = (let n = (of_char c :: nat)
     in (9 \<le> n \<and> n \<le> 13) \<or> (28 \<le> n \<and> n \<le> 32) \<or> n = 133 \<or> n = 160)"

definition strip :: "string \<Rightarrow> string" where
  "strip s = rev (dropWhile is_space (rev (dropWhile is_space s)))"

definition is_decimal :: "char \<Rightarrow> bool" where
  "is_decimal c = (let n = (of_char c :: nat) in 48 \<le> n \<and> n \<le> 57)"

definition is_numeric_char :: "char \<Rightarrow> bool" where
  "is_numeric_char c = (let n = (of_char c :: nat)
     in is_decimal c \<or> n = 178 \<or> n = 179 \<or> n = 185 \<or> (188 \<le> n \<and> n \<le> 190))"

definition isnumeric :: "string \<Rightarrow> bool" where
  "isnumeric s = (s \<noteq> [] \<and> list_all is_numeric_char s)"

text \<open>
  \<^verbatim>\<open>int(s)\<close> for a string that passed \<^verbatim>\<open>isnumeric\<close>: the decimal digits are read,
  any other numeric character (a superscript digit, a fraction) raises ValueError.
\<close>

definition py_int :: "string \<Rightarrow> int option" where
  "py_int s = (if s \<noteq> [] \<and> list_all is_decimal s
     then Some (foldl (\<lambda>acc c. 10 * acc + (int (of_char c) - 48)) 0 s) else None)"

definition startswith :: "string \<Rightarrow> string \<Rightarrow> bool" where
  "startswith s p = (take (length p) s = p)"

text \<open>The truth value of an optional string: neither \<^verbatim>\<open>None\<close> nor empty.\<close>

definition truthy_str :: "string option \<Rightarrow> bool" where
  "truthy_str q = (case q of None \<Rightarrow> False | Some s \<Rightarrow> s \<noteq> [])"

definition truthy_list :: "'a list option \<Rightarrow> bool" where
  "truthy_list l = (case l of None \<Rightarrow> False | Some xs \<Rightarrow> xs \<noteq> [])"

text \<open>
  \<^verbatim>\<open>random.shuffle\<close>: for \<open>i\<close> from the last index down to 1, draw \<open>j\<close> in
  \<open>0..i\<close> and exchange the entries \<open>i\<close> and \<open>j\<close>. The draws are taken from \<open>rnd\<close>,
  each reduced into its range; a missing draw counts as 0.
\<close>

fun shuffle_from :: "nat \<Rightarrow> nat list \<Rightarrow> 'a list \<Rightarrow> 'a list" where
  "shuffle_from 0 rnd xs = xs"
| "shuffle_from (Suc i) rnd xs =
     (let j = (case rnd of [] \<Rightarrow> 0 | r # _ \<Rightarrow> r mod (Suc (Suc i)))
      in shuffle_from i (tl rnd) (xs[Suc i := xs ! j, j := xs ! Suc i]))"

definition shuffle :: "nat list \<Rightarrow> 'a list \<Rightarrow> 'a list" where
  "shuffle rnd xs = shuffle_from (length xs - 1) rnd xs"

subsection \<open>The methods of \<^verbatim>\<open>Game\<close>\<close>

definition start_round :: "game \<Rightarrow> result" where
  "start_round g =
     (if question_setter g \<noteq> None then Inr g
      else
        let i = setter_index g + 1;
            i = (if i \<ge> int (length (players g)) then 0 else i);
            g1 = g\<lparr>setter_index := i\<rparr>
        in case py_index (players g1) i of
             None \<Rightarrow> Inl (IndexError, g1)
           | Some p \<Rightarrow>
               Inr (g1\<lparr>question_setter := Some p, question := None, answers := [],
                        correct_answer := None, answer_selection_list := None,
                        vote_messages := [], votes := []\<rparr>))"

text \<open>The loop of \<^verbatim>\<open>add_players\<close>.\<close>

fun add_loop :: "player list \<Rightarrow> game \<Rightarrow> game" where
  "add_loop [] g = g"
| "add_loop (p # ps) g =
     (if p \<in> set (players g) then add_loop ps g
      else add_loop ps (g\<lparr>players := players g @ [p],
                           scores := AList.update p 0 (scores g)\<rparr>))"

definition add_players :: "player list \<Rightarrow> game \<Rightarrow> result" where
  "add_players ps g =
     (let g1 = add_loop ps g
      in if question_setter g1 = None \<and> length (players g1) \<ge> 2
         then start_round g1 else Inr g1)"

text \<open>\<^verbatim>\<open>request_answers\<close> only sends messages: it assigns no field.\<close>

definition request_answers :: "game \<Rightarrow> game" where
  "request_answers g = g"

definition request_answer_selection :: "nat list \<Rightarrow> game \<Rightarrow> game" where
  "request_answer_selection rnd g =
     (case question_setter g of
        None \<Rightarrow> g
      | Some setter \<Rightarrow> g\<lparr>answer_selection_list := Some (shuffle rnd (answers g))\<rparr>)"

text \<open>The loop of \<^verbatim>\<open>select_answer\<close> that posts one vote prompt for each answer.\<close>

fun post_votes :: "nat \<Rightarrow> (nat \<Rightarrow> message) \<Rightarrow> (player \<times> string) list \<Rightarrow> game \<Rightarrow> game" where
  "post_votes idx post [] g = g"
| "post_votes idx post ((user, answer) # rest) g =
     post_votes (Suc idx) post rest
       (g\<lparr>votes := AList.update user 0 (votes g),
          vote_messages := AList.update (post idx) user (vote_messages g)\<rparr>)"

definition select_answer :: "int \<Rightarrow> nat list \<Rightarrow> (nat \<Rightarrow> message) \<Rightarrow> game \<Rightarrow> game" where
  "select_answer index rnd post g =
     (if index < 1 then g
      else
        let selection_list = (case answer_selection_list g of None \<Rightarrow> [] | Some l \<Rightarrow> l)
        in if index > int (length selection_list) then g
           else
             let g1 = g\<lparr>correct_answer := Some (fst (selection_list ! nat (index - 1))),
                        answer_selection_list := None\<rparr>
             in post_votes 1 post (shuffle rnd (answers g1)) g1)"

text \<open>
  \<^verbatim>\<open>handle_reaction\<close>. \<^verbatim>\<open>next\<close> is called without a default, so it raises
  StopIteration when no vote message has the id of the event (inside the coroutine this
  reaches the caller as a RuntimeError). A message object is never false, so the test
  \<^verbatim>\<open>if not message\<close> that follows never holds.
\<close>

definition handle_reaction :: "player option \<Rightarrow> emoji \<Rightarrow> message \<Rightarrow> game \<Rightarrow> result" where
  "handle_reaction member emoji_name message_id g =
     (if correct_answer g = None then Inr g
      else if emoji_name \<noteq> KeycapOne \<and> emoji_name \<noteq> KeycapTwo then Inr g
      else case member of
        None \<Rightarrow> Inr g
      | Some player \<Rightarrow>
          if player \<notin> set (map fst (votes g)) then Inr g
          else case find (\<lambda>m. m = message_id) (map fst (vote_messages g)) of
            None \<Rightarrow> Inl (StopIteration, g)
          | Some m \<Rightarrow>
             (case map_of (vote_messages g) m of
                None \<Rightarrow> Inl (KeyError, g)
              | Some vote_for \<Rightarrow>
                 (case map_of (votes g) player of
                    None \<Rightarrow> Inl (KeyError, g)
                  | Some w \<Rightarrow>
                      let g1 = g\<lparr>votes := AList.update player
                                   (w + (if emoji_name = KeycapTwo then 2 else 1)) (votes g)\<rparr>
                      in if list_ex (\<lambda>(voter, n). n < 2) (votes g1) then Inr g1
                         else case correct_answer g1 of
                           None \<Rightarrow> Inl (KeyError, g1)
                         | Some ca \<Rightarrow>
                            (case map_of (answers g1) ca of
                               None \<Rightarrow> Inl (KeyError, g1)
                             | Some text \<Rightarrow> Inr (g1\<lparr>question_setter := None\<rparr>)))))"

definition handle_channel_message :: "player \<Rightarrow> string \<Rightarrow> player list \<Rightarrow> game \<Rightarrow> result" where
  "handle_channel_message author content mentions g =
     (if startswith content ''!nextround'' then start_round g
      else if startswith content ''!addplayers '' then add_players mentions g
      else if startswith content ''!question '' then
        (if truthy_str (question g) then Inr g
         else if Some author \<noteq> question_setter g then Inr g
         else Inr (request_answers (g\<lparr>question := Some (strip (drop 10 content))\<rparr>)))
      else Inr g)"

definition handle_player_message ::
    "player \<Rightarrow> string \<Rightarrow> nat list \<Rightarrow> (nat \<Rightarrow> message) \<Rightarrow> game \<Rightarrow> result" where
  "handle_player_message author content rnd post g =
     (if \<not> truthy_str (question g) then Inr g
      else if Some author = question_setter g then
        (if \<not> truthy_list (answer_selection_list g) then Inr g
         else if isnumeric content then
           (case py_int content of
              None \<Rightarrow> Inl (ValueError, g)
            | Some n \<Rightarrow> Inr (select_answer n rnd post g))
         else Inr g)
      else if truthy_list (answer_selection_list g) \<or> correct_answer g \<noteq> None then Inr g
      else
        let g1 = g\<lparr>answers := AList.update author (strip content) (answers g)\<rparr>
        in if int (length (answers g1)) = int (length (players g1)) - 1
           then Inr (request_answer_selection rnd g1) else Inr g1)"

subsection \<open>The events a session receives\<close>

text \<open>
  The four calls that \<^verbatim>\<open>DiscordBot\<close> makes on a game: \<^verbatim>\<open>add_players\<close> when the game
  is started, and the three handlers. An exception of a handler is logged by the client
  library and the game goes on from the state the handler left.
\<close>

datatype event =
    Join "player list"
  | ChannelMsg player string "player list"
  | PlayerMsg player string "nat list" "nat \<Rightarrow> message"
  | Reaction "player option" emoji message

fun step :: "event \<Rightarrow> game \<Rightarrow> result" where
  "step (Join ps) g = add_players ps g"
| "step (ChannelMsg author content mentions) g = handle_channel_message author content mentions g"
| "step (PlayerMsg author content rnd post) g = handle_player_message author content rnd post g"
| "step (Reaction member emoji_name message_id) g = handle_reaction member emoji_name message_id g"

fun exec :: "event list \<Rightarrow> game \<Rightarrow> game" where
  "exec [] g = g"
| "exec (e # es) g = exec es (state_of (step e g))"

section \<open>Runs of a session\<close>

text \<open>
  The end-to-end scenario of the specification: the players 1, 2 and 3 (A, B and C) join,
  which starts the first round with A as setter; A sets the question; B and C answer,
  which opens the selection; A selects the entry of B's answer. The draws keep the
  selection list in the order of submission and exchange the two public prompts, so the
  message 101 shows C's answer and the message 102 shows B's.
\<close>

definition vote_post :: "nat \<Rightarrow> message" where
  "vote_post idx = 100 + idx"

definition scenario_select :: "event list" where
  "scenario_select =
     [Join [1, 2, 3],
      ChannelMsg 1 ''!question favorite food'' [],
      PlayerMsg 2 ''pizza'' [] vote_post,
      PlayerMsg 3 ''tacos'' [1] vote_post,
      PlayerMsg 1 ''1'' [0] vote_post]"

text \<open>Then B and C each cast one high-confidence vote; A casts none.\<close>

definition scenario_votes :: "event list" where
  "scenario_votes = scenario_select @
     [Reaction (Some 2) KeycapTwo 101, Reaction (Some 3) KeycapTwo 102]"

text \<open>
  The events of one round that leave the roster alone and start no round: every event
  but a join and the channel commands \<^verbatim>\<open>!nextround\<close> and \<^verbatim>\<open>!addplayers\<close>.
\<close>

fun in_round :: "event \<Rightarrow> bool" where
  "in_round (Join ps) = False"
| "in_round (ChannelMsg author content mentions) =
     (\<not> startswith content ''!nextround'' \<and> \<not> startswith content ''!addplayers '')"
| "in_round (PlayerMsg author content rnd post) = True"
| "in_round (Reaction member emoji_name message_id) = True"

text \<open>
  Consecutive completed rounds: each round is a call of \<^verbatim>\<open>start_round\<close> followed by
  the events of that round, after which the setter has been cleared. The result lists
  the game as each \<^verbatim>\<open>start_round\<close> returned it, and the game at the end; it is
  \<open>None\<close> when a call raises or a round is left incomplete.
\<close>

fun play_rounds :: "event list list \<Rightarrow> game \<Rightarrow> (game list \<times> game) option" where
  "play_rounds [] g = Some ([], g)"
| "play_rounds (es # ess) g =
     (case start_round g of
        Inl err \<Rightarrow> None
      | Inr g1 \<Rightarrow>
          if question_setter (exec es g1) \<noteq> None then None
          else (case play_rounds ess (exec es g1) of
                  None \<Rightarrow> None
                | Some (gs, g3) \<Rightarrow> Some (g1 # gs, g3)))"

text \<open>
  The events of one whole round with the setter \<open>s\<close> and the two other players
  \<open>a\<close> and \<open>b\<close>: the question, the two answers, the selection and the two votes.
\<close>

definition round_events :: "player \<Rightarrow> player \<Rightarrow> player \<Rightarrow> event list" where
  "round_events s a b =
     [ChannelMsg s ''!question favorite food'' [],
      PlayerMsg a ''pizza'' [] vote_post,
      PlayerMsg b ''tacos'' [1] vote_post,
      PlayerMsg s ''1'' [0] vote_post,
      Reaction (Some a) KeycapTwo 101,
      Reaction (Some b) KeycapOne 102,
      Reaction (Some b) KeycapOne 101]"

text \<open>
  Four rounds of the players 1, 2 and 3, played from the game in which the loop of
  \<^verbatim>\<open>add_players\<close> has just entered them, where \<^verbatim>\<open>add_players\<close> calls
  \<^verbatim>\<open>start_round\<close> for the first round.
\<close>

definition four_rounds :: "event list list" where
  "four_rounds = [round_events 1 2 3, round_events 2 1 3, round_events 3 1 2, round_events 1 2 3]"

text \<open>
  A session in which \<^verbatim>\<open>!nextround\<close> is sent to the new game before anybody has
  joined, and then the players 1, 2 and 3 join, which starts the first round. Each of
  the three further sessions plays the round to its end and sends \<^verbatim>\<open>!nextround\<close>.
\<close>

definition session_round1 :: "event list" where
  "session_round1 = [ChannelMsg 1 ''!nextround'' [], Join [1, 2, 3]]"

definition session_round2 :: "event list" where
  "session_round2 = session_round1 @ round_events 2 1 3 @ [ChannelMsg 1 ''!nextround'' []]"

definition session_round3 :: "event list" where
  "session_round3 = session_round2 @ round_events 3 1 2 @ [ChannelMsg 1 ''!nextround'' []]"

definition session_round4 :: "event list" where
  "session_round4 = session_round3 @ round_events 1 2 3 @ [ChannelMsg 1 ''!nextround'' []]"

text \<open>
  The scenario played to the end of its round, followed by the channel command
  \<^verbatim>\<open>!addplayers\<close> that names A, who is on the roster already.
\<close>

definition scenario_rejoin :: "event list" where
  "scenario_rejoin = scenario_votes @ [ChannelMsg 1 ''!addplayers @A'' [1]]"

text \<open>The round-scoped fields as \<^verbatim>\<open>start_round\<close> leaves them.\<close>

definition round_state_empty :: "game \<Rightarrow> bool" where
  "round_state_empty g =
     (question g = None \<and> answers g = [] \<and> answer_selection_list g = None \<and>
      correct_answer g = None \<and> vote_messages g = [] \<and> votes g = [])"

text \<open>
  The round-scoped fields of two games agree.
\<close>

definition same_round_state :: "game \<Rightarrow> game \<Rightarrow> bool" where
  "same_round_state g g' =
     (setter_index g' = setter_index g \<and> question_setter g' = question_setter g \<and>
      question g' = question g \<and> answers g' = answers g \<and>
      answer_selection_list g' = answer_selection_list g \<and>
      correct_answer g' = correct_answer g \<and> vote_messages g' = vote_messages g \<and>
      votes g' = votes g)"

text \<open>
  The players an event asks to add: the argument of a join, and the mentions of the
  channel command \<^verbatim>\<open>!addplayers\<close>, in the order in which \<^verbatim>\<open>handle_channel_message\<close>
  tests the commands.
\<close>

fun joined :: "event \<Rightarrow> player list" where
  "joined (Join ps) = ps"
| "joined (ChannelMsg author content mentions) =
     (if startswith content ''!nextround'' then []
      else if startswith content ''!addplayers '' then mentions else [])"
| "joined (PlayerMsg author content rnd post) = []"
| "joined (Reaction member emoji_name message_id) = []"

text \<open>The distinct elements of a list, each at its first occurrence.\<close>

definition first_seen :: "'a list \<Rightarrow> 'a list" where
  "first_seen xs = rev (remdups (rev xs))"

text \<open>The selection pool: the entries of \<^verbatim>\<open>answer_selection_list\<close>, none when it is unset.\<close>

definition selection_pool :: "game \<Rightarrow> (player \<times> string) list" where
  "selection_pool g = (case answer_selection_list g of None \<Rightarrow> [] | Some l \<Rightarrow> l)"

text \<open>
  The guards of \<^verbatim>\<open>handle_player_message\<close> under which a private message is taken as
  an answer.
\<close>

definition accepts_answer :: "player \<Rightarrow> game \<Rightarrow> bool" where
  "accepts_answer author g =
     (truthy_str (question g) \<and> Some author \<noteq> question_setter g \<and>
      \<not> truthy_list (answer_selection_list g) \<and> correct_answer g = None)"

text \<open>The texts stored for a key.\<close>

definition texts_of :: "player \<Rightarrow> (player \<times> string) list \<Rightarrow> string list" where
  "texts_of p al = map snd (filter (\<lambda>kv. fst kv = p) al)"

text \<open>
  The guards of \<^verbatim>\<open>handle_reaction\<close> under which a reaction is counted as a vote.
\<close>

definition accepts_vote :: "player \<Rightarrow> emoji \<Rightarrow> message \<Rightarrow> game \<Rightarrow> bool" where
  "accepts_vote voter emoji_name message_id g =
     (correct_answer g \<noteq> None \<and> (emoji_name = KeycapOne \<or> emoji_name = KeycapTwo) \<and>
      voter \<in> fst ` set (votes g) \<and> message_id \<in> fst ` set (vote_messages g))"

definition all_voted :: "game \<Rightarrow> bool" where
  "all_voted g = list_all (\<lambda>(voter, n). 2 \<le> n) (votes g)"

subsection \<open>Invariants of the reachable states\<close>

definition roster_inv :: "game \<Rightarrow> bool" where
  "roster_inv g =
     (distinct (players g) \<and> scores g = map (\<lambda>p. (p, 0)) (players g) \<and>
      - 1 \<le> setter_index g)"

definition round_inv :: "game \<Rightarrow> bool" where
  "round_inv g =
     ((\<forall>s. question_setter g = Some s \<longrightarrow> s \<notin> fst ` set (answers g)) \<and>
      (\<forall>l. answer_selection_list g = Some l \<longrightarrow>
         l \<noteq> [] \<and> fst ` set l \<subseteq> fst ` set (answers g) \<and> correct_answer g = None) \<and>
      (\<forall>p. correct_answer g = Some p \<longrightarrow>
         p \<in> fst ` set (answers g) \<and> fst ` set (votes g) = fst ` set (answers g)) \<and>
      (correct_answer g = None \<longrightarrow> votes g = [] \<and> vote_messages g = []) \<and>
      (correct_answer g \<noteq> None \<and> question_setter g = None \<longrightarrow> all_voted g) \<and>
      distinct (map fst (answers g)) \<and> distinct (map fst (votes g)))"

text \<open>The index that \<^verbatim>\<open>start_round\<close> moves the cursor to.\<close>

definition next_index :: "game \<Rightarrow> int" where
  "next_index g = (if setter_index g + 1 \<ge> int (length (players g)) then 0 else setter_index g + 1)"

section \<open>Auxiliary facts\<close>

lemma mset_shuffle_from: "i < length xs \<Longrightarrow> mset (shuffle_from i rnd xs) = mset xs"
proof (induction i arbitrary: rnd xs)
  case 0
  then show ?case by simp
next
  case (Suc i)
  define j where "j = (case rnd of [] \<Rightarrow> 0 | r # _ \<Rightarrow> r mod (Suc (Suc i)))"
  have j: "j < length xs"
  proof (cases rnd)
    case Nil
    then show ?thesis using Suc.prems by (cases xs) (simp_all add: j_def)
  next
    case (Cons r rs)
    have "r mod Suc (Suc i) < Suc (Suc i)" by simp
    then have "r mod Suc (Suc i) < length xs" using Suc.prems by linarith
    then show ?thesis using Cons by (simp add: j_def)
  qed
  have "mset (xs[Suc i := xs ! j, j := xs ! Suc i]) = mset xs"
    using mset_swap [OF j Suc.prems] .
  moreover have "i < length (xs[Suc i := xs ! j, j := xs ! Suc i])"
    using Suc.prems by simp
  ultimately show ?case
    using Suc.IH [of "xs[Suc i := xs ! j, j := xs ! Suc i]" "tl rnd"]
    by (simp add: j_def Let_def)
qed

lemma mset_shuffle: "mset (shuffle rnd xs) = mset xs"
  by (cases xs) (simp_all add: shuffle_def mset_shuffle_from)

lemma set_shuffle: "set (shuffle rnd xs) = set xs"
  using mset_shuffle [of rnd xs] by (metis set_mset_mset)

lemma shuffle_Nil_iff: "shuffle rnd xs = [] \<longleftrightarrow> xs = []"
  using mset_shuffle [of rnd xs] by (metis mset_zero_iff)

lemma post_votes_frame:
  "players (post_votes i post xs g) = players g \<and>
   scores (post_votes i post xs g) = scores g \<and>
   setter_index (post_votes i post xs g) = setter_index g \<and>
   question_setter (post_votes i post xs g) = question_setter g \<and>
   question (post_votes i post xs g) = question g \<and>
   answers (post_votes i post xs g) = answers g \<and>
   answer_selection_list (post_votes i post xs g) = answer_selection_list g \<and>
   correct_answer (post_votes i post xs g) = correct_answer g"
  by (induction i post xs g rule: post_votes.induct) simp_all

lemma post_votes_keys:
  "fst ` set (votes (post_votes i post xs g)) = fst ` set (votes g) \<union> fst ` set xs"
  by (induction i post xs g rule: post_votes.induct) (auto simp: dom_update)

lemma post_votes_distinct:
  "distinct (map fst (votes g)) \<Longrightarrow> distinct (map fst (votes (post_votes i post xs g)))"
  by (induction i post xs g rule: post_votes.induct) (simp_all add: distinct_update)

lemma add_loop_frame:
  "setter_index (add_loop ps g) = setter_index g \<and>
   question_setter (add_loop ps g) = question_setter g \<and>
   question (add_loop ps g) = question g \<and>
   answers (add_loop ps g) = answers g \<and>
   answer_selection_list (add_loop ps g) = answer_selection_list g \<and>
   correct_answer (add_loop ps g) = correct_answer g \<and>
   vote_messages (add_loop ps g) = vote_messages g \<and>
   votes (add_loop ps g) = votes g"
  by (induction ps g rule: add_loop.induct) simp_all

lemma remdups_drop_seen: "p \<in> set zs \<Longrightarrow> remdups (ys @ p # zs) = remdups (ys @ zs)"
  by (induction ys) auto

lemma first_seen_snoc_seen: "p \<in> set xs \<Longrightarrow> first_seen (xs @ p # ys) = first_seen (xs @ ys)"
  by (simp add: first_seen_def remdups_drop_seen)

lemma add_loop_players:
  "players (add_loop ps g) = first_seen (players g @ ps)" if "distinct (players g)"
  using that
proof (induction ps g rule: add_loop.induct)
  case (1 g)
  then show ?case by (simp add: first_seen_def distinct_remdups_id)
next
  case (2 p ps g)
  show ?case
  proof (cases "p \<in> set (players g)")
    case True
    then show ?thesis using 2 by (simp add: first_seen_snoc_seen)
  next
    case False
    then show ?thesis using 2 by simp
  qed
qed

lemma update_new_key: "k \<notin> set ks \<Longrightarrow> AList.update k d (map (\<lambda>p. (p, d)) ks) = map (\<lambda>p. (p, d)) (ks @ [k])"
  by (induction ks) auto

lemma add_loop_roster_inv: "roster_inv g \<Longrightarrow> roster_inv (add_loop ps g)"
  by (induction ps g rule: add_loop.induct) (auto simp: roster_inv_def update_new_key)

lemma start_round_noop: "question_setter g \<noteq> None \<Longrightarrow> start_round g = Inr g"
  by (simp add: start_round_def)

lemma start_round_ok:
  assumes "question_setter g = None" "players g \<noteq> []" "- 1 \<le> setter_index g"
  shows "start_round g =
     Inr (g\<lparr>setter_index := next_index g,
            question_setter := Some (players g ! nat (next_index g)), question := None,
            answers := [], correct_answer := None, answer_selection_list := None,
            vote_messages := [], votes := []\<rparr>)"
  using assms by (auto simp: start_round_def next_index_def py_index_def Let_def)

lemma start_round_players: "players (state_of (start_round g)) = players g"
  by (simp add: start_round_def state_of_def Let_def split: option.splits)

lemma start_round_scores: "scores (state_of (start_round g)) = scores g"
  by (simp add: start_round_def state_of_def Let_def split: option.splits)

lemma start_round_index: "- 1 \<le> setter_index g \<Longrightarrow> - 1 \<le> setter_index (state_of (start_round g))"
  by (simp add: start_round_def state_of_def Let_def split: option.splits)

lemma start_round_roster_inv: "roster_inv g \<Longrightarrow> roster_inv (state_of (start_round g))"
  by (simp add: roster_inv_def start_round_players start_round_scores start_round_index)

lemma start_round_round_inv: "round_inv g \<Longrightarrow> round_inv (state_of (start_round g))"
  by (simp add: start_round_def state_of_def Let_def round_inv_def all_voted_def split: option.splits)

lemma round_inv_cong:
  assumes "question_setter g' = question_setter g" "answers g' = answers g"
    "answer_selection_list g' = answer_selection_list g" "correct_answer g' = correct_answer g"
    "vote_messages g' = vote_messages g" "votes g' = votes g"
  shows "round_inv g' = round_inv g"
  using assms by (simp add: round_inv_def all_voted_def)

lemma add_loop_round_inv: "round_inv (add_loop ps g) = round_inv g"
  by (rule round_inv_cong) (simp_all add: add_loop_frame)

lemma add_players_roster_inv: "roster_inv g \<Longrightarrow> roster_inv (state_of (add_players ps g))"
  by (simp add: add_players_def Let_def start_round_roster_inv add_loop_roster_inv state_of_def [of "Inr _"])

lemma add_players_round_inv: "round_inv g \<Longrightarrow> round_inv (state_of (add_players ps g))"
  by (simp add: add_players_def Let_def start_round_round_inv add_loop_round_inv state_of_def [of "Inr _"])

lemma channel_roster_inv:
  "roster_inv g \<Longrightarrow> roster_inv (state_of (handle_channel_message a c ms g))"
  by (simp add: handle_channel_message_def start_round_roster_inv add_players_roster_inv
      request_answers_def state_of_def [of "Inr _"] roster_inv_def [of "_\<lparr>question := _\<rparr>"])
    (simp add: roster_inv_def)

lemma channel_round_inv:
  "round_inv g \<Longrightarrow> round_inv (state_of (handle_channel_message a c ms g))"
  by (simp add: handle_channel_message_def start_round_round_inv add_players_round_inv
      request_answers_def state_of_def [of "Inr _"] round_inv_cong [of "_\<lparr>question := _\<rparr>" g])

lemma select_answer_roster:
  "players (select_answer k rnd post g) = players g \<and>
   scores (select_answer k rnd post g) = scores g \<and>
   setter_index (select_answer k rnd post g) = setter_index g"
  by (simp add: select_answer_def Let_def post_votes_frame)

lemma select_answer_round_inv:
  assumes "round_inv g" "question_setter g \<noteq> None"
  shows "round_inv (select_answer k rnd post g)"
proof (cases "k < 1 \<or> int (length (case answer_selection_list g of None \<Rightarrow> [] | Some l \<Rightarrow> l)) < k")
  case True
  then show ?thesis using assms by (auto simp: select_answer_def Let_def)
next
  case False
  then obtain l where l: "answer_selection_list g = Some l" and k: "1 \<le> k" "k \<le> int (length l)"
    by (cases "answer_selection_list g") auto
  define g1 where "g1 = g\<lparr>correct_answer := Some (fst (l ! nat (k - 1))), answer_selection_list := None\<rparr>"
  have sel: "select_answer k rnd post g = post_votes 1 post (shuffle rnd (answers g1)) g1"
    using l k by (simp add: select_answer_def Let_def g1_def)
  have mem: "l ! nat (k - 1) \<in> set l"
    using k by (intro nth_mem) auto
  have inv: "l \<noteq> []" "fst ` set l \<subseteq> fst ` set (answers g)" "correct_answer g = None"
    using assms(1) l by (auto simp: round_inv_def)
  have empty: "votes g = []"
    using assms(1) inv(3) by (simp add: round_inv_def)
  have ca: "fst (l ! nat (k - 1)) \<in> fst ` set (answers g)"
    using mem inv(2) by auto
  have keys: "fst ` set (votes (post_votes 1 post (shuffle rnd (answers g1)) g1)) = fst ` set (answers g)"
    by (simp add: post_votes_keys set_shuffle g1_def empty)
  have dist: "distinct (map fst (votes (post_votes 1 post (shuffle rnd (answers g1)) g1)))"
    by (rule post_votes_distinct) (simp add: g1_def empty)
  have old: "\<forall>s. question_setter g = Some s \<longrightarrow> s \<notin> fst ` set (answers g)"
    "distinct (map fst (answers g))"
    using assms(1) by (simp_all add: round_inv_def)
  show ?thesis
    unfolding sel round_inv_def
    using old assms(2) ca dist [unfolded g1_def] keys [unfolded g1_def]
    by (auto simp: post_votes_frame g1_def)
qed

lemma list_ex_below: "list_ex (\<lambda>(voter, n). n < (2::int)) al \<longleftrightarrow> \<not> list_all (\<lambda>(voter, n). 2 \<le> n) al"
  by (induction al) auto

lemma request_selection_round_inv:
  assumes "round_inv g" "answers g \<noteq> []" "correct_answer g = None"
  shows "round_inv (request_answer_selection rnd g)"
  using assms
  by (auto simp: request_answer_selection_def round_inv_def all_voted_def set_shuffle
      shuffle_Nil_iff split: option.splits)

lemma accept_round_inv:
  assumes "round_inv g" "Some a \<noteq> question_setter g" "correct_answer g = None"
  shows "round_inv (g\<lparr>answers := AList.update a t (answers g)\<rparr>)"
proof -
  have "fst ` set l \<subseteq> insert a (fst ` set (answers g))" if "answer_selection_list g = Some l" for l
    using assms(1) that by (auto simp: round_inv_def)
  then show ?thesis
    using assms by (auto simp: round_inv_def all_voted_def dom_update distinct_update)
qed

lemma player_round_inv:
  assumes "round_inv g"
  shows "round_inv (state_of (handle_player_message a c rnd post g))"
proof (cases "accepts_answer a g")
  case True
  define g1 where "g1 = g\<lparr>answers := AList.update a (strip c) (answers g)\<rparr>"
  have g1: "round_inv g1" "answers g1 \<noteq> []" "correct_answer g1 = None"
    using True assms by (simp_all add: g1_def accept_round_inv accepts_answer_def)
  have "state_of (handle_player_message a c rnd post g) = g1 \<or>
        state_of (handle_player_message a c rnd post g) = request_answer_selection rnd g1"
    using True by (auto simp: handle_player_message_def accepts_answer_def Let_def g1_def state_of_def)
  then show ?thesis
    using g1 request_selection_round_inv by auto
next
  case False
  then have "state_of (handle_player_message a c rnd post g) = g \<or>
    (Some a = question_setter g \<and> (\<exists>n. state_of (handle_player_message a c rnd post g) = select_answer n rnd post g))"
    by (auto simp: handle_player_message_def accepts_answer_def Let_def state_of_def split: option.splits)
  then show ?thesis
    using assms select_answer_round_inv [of g] by (metis option.distinct(1))
qed

lemma player_roster_inv:
  "roster_inv g \<Longrightarrow> roster_inv (state_of (handle_player_message a c rnd post g))"
  by (auto simp: handle_player_message_def Let_def state_of_def roster_inv_def select_answer_roster
      request_answer_selection_def split: option.splits)

lemma find_key: "x \<in> set xs \<Longrightarrow> find (\<lambda>m. m = x) xs = Some x"
  by (induction xs) auto

lemma find_key_None: "x \<notin> set xs \<Longrightarrow> find (\<lambda>m. m = x) xs = None"
  by (induction xs) auto

lemma map_of_key: "k \<in> fst ` set al \<Longrightarrow> \<exists>v. map_of al k = Some v"
  by (cases "map_of al k") (simp_all add: map_of_eq_None_iff)

lemma reaction_accepted:
  assumes "accepts_vote v em mid g"
  shows "\<exists>w. map_of (votes g) v = Some w \<and>
       handle_reaction (Some v) em mid g =
         (let g1 = g\<lparr>votes := AList.update v (w + (if em = KeycapTwo then 2 else 1)) (votes g)\<rparr>
          in if \<not> all_voted g1 then Inr g1
             else case correct_answer g of
                 None \<Rightarrow> Inl (KeyError, g1)
               | Some ca \<Rightarrow>
                  (case map_of (answers g) ca of
                     None \<Rightarrow> Inl (KeyError, g1)
                   | Some text \<Rightarrow> Inr (g1\<lparr>question_setter := None\<rparr>)))"
proof -
  obtain w where w: "map_of (votes g) v = Some w"
    using assms map_of_key [of v "votes g"] by (auto simp: accepts_vote_def)
  obtain t where t: "map_of (vote_messages g) mid = Some t"
    using assms map_of_key [of mid "vote_messages g"] by (auto simp: accepts_vote_def)
  have f: "find (\<lambda>m. m = mid) (map fst (vote_messages g)) = Some mid"
    using assms by (intro find_key) (simp add: accepts_vote_def)
  have "handle_reaction (Some v) em mid g =
         (let g1 = g\<lparr>votes := AList.update v (w + (if em = KeycapTwo then 2 else 1)) (votes g)\<rparr>
          in if \<not> all_voted g1 then Inr g1
             else case correct_answer g of
                 None \<Rightarrow> Inl (KeyError, g1)
               | Some ca \<Rightarrow>
                  (case map_of (answers g) ca of
                     None \<Rightarrow> Inl (KeyError, g1)
                   | Some text \<Rightarrow> Inr (g1\<lparr>question_setter := None\<rparr>)))"
    using assms w t f
    by (auto simp: handle_reaction_def accepts_vote_def Let_def all_voted_def list_ex_below)
  then show ?thesis using w by blast
qed

lemma reaction_rejected:
  assumes "\<not> (\<exists>v. member = Some v \<and> accepts_vote v em mid g)"
  shows "state_of (handle_reaction member em mid g) = g \<and>
         raised (handle_reaction member em mid g) \<noteq> Some KeyError"
  using assms
  by (auto simp: handle_reaction_def accepts_vote_def state_of_def raised_def find_key_None
      split: option.splits)

lemma list_all_update: "list_all P al \<Longrightarrow> P (k, v) \<Longrightarrow> list_all P (AList.update k v al)"
  by (induction al) auto

lemma all_voted_update:
  assumes "all_voted g" "map_of (votes g) v = Some w" "0 \<le> d"
  shows "all_voted (g\<lparr>votes := AList.update v (w + d) (votes g)\<rparr>)"
proof -
  have "(v, w) \<in> set (votes g)" using assms(2) by (rule map_of_SomeD)
  then have "2 \<le> w" using assms(1) by (auto simp: all_voted_def list_all_iff)
  then show ?thesis using assms(1,3) by (simp add: all_voted_def list_all_update)
qed

lemma voted_round_inv:
  assumes "round_inv g" "v \<in> fst ` set (votes g)" "question_setter g = None \<longrightarrow> all_voted (g\<lparr>votes := AList.update v n (votes g)\<rparr>)"
  shows "round_inv (g\<lparr>votes := AList.update v n (votes g)\<rparr>)"
proof -
  have "fst ` set (AList.update v n (votes g)) = fst ` set (votes g)"
    using assms(2) by (auto simp: dom_update)
  moreover have "correct_answer g \<noteq> None"
    using assms(1,2) by (auto simp: round_inv_def)
  ultimately show ?thesis
    using assms(1,3) by (auto simp: round_inv_def distinct_update)
qed

lemma completed_round_inv:
  assumes "round_inv g" "all_voted g"
  shows "round_inv (g\<lparr>question_setter := None\<rparr>)"
  using assms by (auto simp: round_inv_def all_voted_def)

lemma reaction_round_inv:
  assumes "round_inv g"
  shows "round_inv (state_of (handle_reaction member em mid g)) \<and>
         raised (handle_reaction member em mid g) \<noteq> Some KeyError"
proof (cases "\<exists>v. member = Some v \<and> accepts_vote v em mid g")
  case False
  then show ?thesis using assms reaction_rejected [of member em mid g] by simp
next
  case True
  then obtain v where v: "member = Some v" "accepts_vote v em mid g" by blast
  obtain w where w: "map_of (votes g) v = Some w" and
    h: "handle_reaction (Some v) em mid g =
         (let g1 = g\<lparr>votes := AList.update v (w + (if em = KeycapTwo then 2 else 1)) (votes g)\<rparr>
          in if \<not> all_voted g1 then Inr g1
             else case correct_answer g of
                 None \<Rightarrow> Inl (KeyError, g1)
               | Some ca \<Rightarrow>
                  (case map_of (answers g) ca of
                     None \<Rightarrow> Inl (KeyError, g1)
                   | Some text \<Rightarrow> Inr (g1\<lparr>question_setter := None\<rparr>)))"
    using reaction_accepted [OF v(2)] by blast
  define g1 where "g1 = g\<lparr>votes := AList.update v (w + (if em = KeycapTwo then 2 else 1)) (votes g)\<rparr>"
  obtain ca where ca: "correct_answer g = Some ca"
    using v(2) by (auto simp: accepts_vote_def)
  then have "ca \<in> fst ` set (answers g)"
    using assms by (simp add: round_inv_def)
  then obtain t where t: "map_of (answers g) ca = Some t"
    using map_of_key by fastforce
  have res: "handle_reaction member em mid g = (if \<not> all_voted g1 then Inr g1 else Inr (g1\<lparr>question_setter := None\<rparr>))"
    using h ca t v(1) by (simp add: g1_def Let_def)
  have "question_setter g = None \<longrightarrow> all_voted g1"
  proof
    assume "question_setter g = None"
    then have "all_voted g" using assms ca by (simp add: round_inv_def)
    then show "all_voted g1" unfolding g1_def using w by (rule all_voted_update) simp
  qed
  then have inv1: "round_inv g1"
    unfolding g1_def using assms v(2) by (intro voted_round_inv) (simp_all add: accepts_vote_def)
  show ?thesis
    using res inv1 completed_round_inv [of g1] by (simp add: state_of_def raised_def)
qed

lemma reaction_roster_inv:
  "roster_inv g \<Longrightarrow> roster_inv (state_of (handle_reaction member em mid g))"
  by (auto simp: handle_reaction_def Let_def state_of_def roster_inv_def split: option.splits)

lemma step_roster_inv: "roster_inv g \<Longrightarrow> roster_inv (state_of (step e g))"
  by (cases e) (simp_all add: add_players_roster_inv channel_roster_inv player_roster_inv reaction_roster_inv)

lemma step_round_inv: "round_inv g \<Longrightarrow> round_inv (state_of (step e g))"
  by (cases e) (simp_all add: add_players_round_inv channel_round_inv player_round_inv reaction_round_inv)

lemma exec_invs: "roster_inv g \<Longrightarrow> round_inv g \<Longrightarrow> roster_inv (exec es g) \<and> round_inv (exec es g)"
  by (induction es arbitrary: g) (simp_all add: step_roster_inv step_round_inv)

lemma Game_invs: "roster_inv Game" "round_inv Game"
  by (simp_all add: roster_inv_def round_inv_def Game_def)

lemma reachable_invs: "roster_inv (exec es Game)" "round_inv (exec es Game)"
  using exec_invs [OF Game_invs] by simp_all

lemma exec_append: "exec (es @ es') g = exec es' (exec es g)"
  by (induction es arbitrary: g) simp_all

lemma remdups_append_remdups: "remdups (a @ remdups b) = remdups (a @ b)"
  by (induction a) auto

lemma first_seen_absorb: "first_seen (first_seen xs @ zs) = first_seen (xs @ zs)"
  by (simp add: first_seen_def remdups_append_remdups)

lemma first_seen_distinct: "distinct xs \<Longrightarrow> first_seen xs = xs"
  by (simp add: first_seen_def distinct_remdups_id)

lemma player_frame:
  "players (state_of (handle_player_message a c rnd post g)) = players g \<and>
   scores (state_of (handle_player_message a c rnd post g)) = scores g \<and>
   setter_index (state_of (handle_player_message a c rnd post g)) = setter_index g"
  by (auto simp: handle_player_message_def Let_def state_of_def select_answer_roster
      request_answer_selection_def split: option.splits)

lemma reaction_frame:
  "players (state_of (handle_reaction m em mid g)) = players g \<and>
   scores (state_of (handle_reaction m em mid g)) = scores g \<and>
   setter_index (state_of (handle_reaction m em mid g)) = setter_index g \<and>
   answers (state_of (handle_reaction m em mid g)) = answers g"
  by (auto simp: handle_reaction_def Let_def state_of_def split: option.splits)

lemma add_players_players:
  "distinct (players g) \<Longrightarrow> players (state_of (add_players ps g)) = first_seen (players g @ ps)"
  by (simp add: add_players_def Let_def start_round_players add_loop_players state_of_def [of "Inr _"])

lemma step_players:
  assumes "roster_inv g"
  shows "players (state_of (step e g)) = first_seen (players g @ joined e)"
proof -
  have d: "distinct (players g)" using assms by (simp add: roster_inv_def)
  show ?thesis
  proof (cases e)
    case (Join ps)
    then show ?thesis using d by (simp add: add_players_players)
  next
    case (ChannelMsg a c ms)
    then show ?thesis using d
      by (simp add: handle_channel_message_def start_round_players add_players_players
          first_seen_distinct request_answers_def state_of_def [of "Inr _"])
  next
    case (PlayerMsg a c rnd post)
    then show ?thesis using d by (simp add: player_frame first_seen_distinct)
  next
    case (Reaction m em mid)
    then show ?thesis using d by (simp add: reaction_frame first_seen_distinct)
  qed
qed

lemma exec_players:
  "roster_inv g \<Longrightarrow> players (exec es g) = first_seen (players g @ concat (map joined es))"
proof (induction es arbitrary: g)
  case Nil
  then show ?case by (simp add: first_seen_distinct roster_inv_def)
next
  case (Cons e es)
  have "players (exec (e # es) g) =
      first_seen (first_seen (players g @ joined e) @ concat (map joined es))"
    using Cons.IH [OF step_roster_inv [OF Cons.prems]] Cons.prems by (simp add: step_players)
  then show ?case by (simp add: first_seen_absorb)
qed

lemma add_players_no_raise: "roster_inv g \<Longrightarrow> raised (add_players ps g) = None"
proof -
  assume "roster_inv g"
  then have r: "roster_inv (add_loop ps g)" by (rule add_loop_roster_inv)
  show ?thesis
  proof (cases "question_setter (add_loop ps g) = None \<and> 2 \<le> length (players (add_loop ps g))")
    case True
    then have "players (add_loop ps g) \<noteq> []" by auto
    then show ?thesis
      using True r start_round_ok [of "add_loop ps g"]
      by (simp add: add_players_def Let_def raised_def roster_inv_def)
  next
    case False
    then show ?thesis by (auto simp: add_players_def Let_def raised_def)
  qed
qed

lemma add_loop_extends:
  "take (length (players g)) (players (add_loop ps g)) = players g \<and>
   length (players g) \<le> length (players (add_loop ps g))"
proof (induction ps g rule: add_loop.induct)
  case (1 g)
  then show ?case by simp
next
  case (2 p ps g)
  show ?case
  proof (cases "p \<in> set (players g)")
    case True
    then show ?thesis using 2 by simp
  next
    case False
    let ?h = "g\<lparr>players := players g @ [p], scores := AList.update p 0 (scores g)\<rparr>"
    have ih: "take (Suc (length (players g))) (players (add_loop ps ?h)) = players g @ [p]"
      "Suc (length (players g)) \<le> length (players (add_loop ps ?h))"
      using 2(2) [OF False] by simp_all
    have "take (length (players g)) (players (add_loop ps ?h)) =
        take (length (players g)) (take (Suc (length (players g))) (players (add_loop ps ?h)))"
      by (simp add: min_def)
    also have "\<dots> = players g" unfolding ih(1) by simp
    finally show ?thesis using False ih(2) by simp
  qed
qed

lemma texts_of_absent: "p \<notin> fst ` set al \<Longrightarrow> texts_of p al = []"
  by (induction al) (auto simp: texts_of_def)

lemma texts_of_update: "distinct (map fst al) \<Longrightarrow> texts_of p (AList.update p t al) = [t]"
proof (induction al)
  case Nil
  then show ?case by (simp add: texts_of_def)
next
  case (Cons kv al)
  show ?case
  proof (cases "fst kv = p")
    case True
    then have "p \<notin> fst ` set al" using Cons.prems by auto
    then have "texts_of p al = []" by (rule texts_of_absent)
    then show ?thesis using True by (simp add: texts_of_def)
  next
    case False
    then show ?thesis using Cons by (simp add: texts_of_def)
  qed
qed

lemma accepted_answers:
  "accepts_answer a g \<Longrightarrow>
     raised (handle_player_message a c rnd post g) = None \<and>
     answers (state_of (handle_player_message a c rnd post g)) =
       AList.update a (strip c) (answers g)"
  by (auto simp: handle_player_message_def accepts_answer_def Let_def state_of_def raised_def
      request_answer_selection_def split: option.splits)

lemma start_round_answers:
  "answers (state_of (start_round g)) = answers g \<or> round_state_empty (state_of (start_round g))"
  by (simp add: start_round_def state_of_def Let_def round_state_empty_def split: option.splits)

lemma add_players_answers:
  "answers (state_of (add_players ps g)) = answers g \<or>
   round_state_empty (state_of (add_players ps g))"
  using start_round_answers [of "add_loop ps g"]
  by (simp add: add_players_def Let_def add_loop_frame state_of_def [of "Inr _"])

lemma channel_answers:
  "answers (state_of (handle_channel_message a c ms g)) = answers g \<or>
   round_state_empty (state_of (handle_channel_message a c ms g))"
  using start_round_answers [of g] add_players_answers [of ms g]
  by (simp add: handle_channel_message_def request_answers_def state_of_def [of "Inr _"])

lemma select_answer_answers: "answers (select_answer k rnd post g) = answers g"
  by (simp add: select_answer_def Let_def post_votes_frame)

lemma player_answers_frozen:
  assumes "\<not> accepts_answer a g"
  shows "answers (state_of (handle_player_message a c rnd post g)) = answers g"
  using assms
  by (auto simp: handle_player_message_def accepts_answer_def Let_def state_of_def
      select_answer_answers split: option.splits)

lemma step_answers_frozen:
  assumes "round_inv g" "answer_selection_list g \<noteq> None \<or> correct_answer g \<noteq> None"
  shows "answers (state_of (step e g)) = answers g \<or> round_state_empty (state_of (step e g))"
proof (cases e)
  case (Join ps)
  then show ?thesis by (simp add: add_players_answers)
next
  case (ChannelMsg a c ms)
  then show ?thesis by (simp add: channel_answers)
next
  case (PlayerMsg a c rnd post)
  have "truthy_list (answer_selection_list g) \<or> correct_answer g \<noteq> None"
    using assms by (auto simp: round_inv_def truthy_list_def)
  then have "\<not> accepts_answer a g" by (auto simp: accepts_answer_def)
  then show ?thesis using PlayerMsg by (simp add: player_answers_frozen)
next
  case (Reaction m em mid)
  then show ?thesis by (simp add: reaction_frame)
qed

lemma channel_in_round_frame:
  assumes "\<not> startswith c ''!nextround''" "\<not> startswith c ''!addplayers ''"
  shows "players (state_of (handle_channel_message a c ms g)) = players g \<and>
         setter_index (state_of (handle_channel_message a c ms g)) = setter_index g"
  using assms by (simp add: handle_channel_message_def request_answers_def state_of_def)

lemma in_round_frame:
  "in_round e \<Longrightarrow>
     players (state_of (step e g)) = players g \<and>
     setter_index (state_of (step e g)) = setter_index g"
  by (cases e) (simp_all add: channel_in_round_frame player_frame reaction_frame)

lemma exec_in_round_frame:
  "list_all in_round es \<Longrightarrow>
     players (exec es g) = players g \<and> setter_index (exec es g) = setter_index g"
  by (induction es arbitrary: g) (simp_all add: in_round_frame)

lemma next_index_mod:
  assumes "players g \<noteq> []" "- 1 \<le> setter_index g" "setter_index g < int (length (players g))"
  shows "next_index g = (setter_index g + 1) mod int (length (players g))"
proof (cases "int (length (players g)) \<le> setter_index g + 1")
  case True
  then have "setter_index g + 1 = int (length (players g))" using assms(3) by linarith
  then show ?thesis by (simp add: next_index_def)
next
  case False
  then show ?thesis using assms(2) by (simp add: next_index_def)
qed

lemma play_rounds_cycle:
  assumes "players g = roster" "roster \<noteq> []" "question_setter g = None"
    and "- 1 \<le> setter_index g" "setter_index g < int (length roster)"
    and "(setter_index g + 1) mod int (length roster) = int (m mod length roster)"
    and "\<forall>es\<in>set ess. list_all in_round es"
    and "play_rounds ess g = Some (gs, g')"
  shows "map question_setter gs = map (\<lambda>i. Some (roster ! ((m + i) mod length roster))) [0..<length ess] \<and>
         list_all round_state_empty gs \<and> list_all (\<lambda>h. players h = roster) gs \<and>
         players g' = roster"
  using assms
proof (induction ess arbitrary: g m gs)
  case Nil
  then show ?case by simp
next
  case (Cons es ess)
  let ?K = "length roster"
  define g1 where "g1 = g\<lparr>setter_index := next_index g,
            question_setter := Some (players g ! nat (next_index g)), question := None,
            answers := [], correct_answer := None, answer_selection_list := None,
            vote_messages := [], votes := []\<rparr>"
  have ne: "players g \<noteq> []" using Cons.prems(1,2) by simp
  have sr: "start_round g = Inr g1"
    unfolding g1_def using Cons.prems(3) ne Cons.prems(4) by (rule start_round_ok)
  have ni: "next_index g = int (m mod ?K)"
    using next_index_mod [OF ne Cons.prems(4)] Cons.prems(1,5,6) by simp
  let ?g2 = "exec es g1"
  have inr: "list_all in_round es" using Cons.prems(7) by simp
  have fr: "players ?g2 = roster" "setter_index ?g2 = int (m mod ?K)"
    using exec_in_round_frame [OF inr, of g1] Cons.prems(1) ni by (simp_all add: g1_def)
  from Cons.prems(8) sr obtain gs' where
    fin: "question_setter ?g2 = None" and
    rest: "play_rounds ess ?g2 = Some (gs', g')" and gs: "gs = g1 # gs'"
    by (auto split: if_splits option.splits)
  have K: "0 < ?K" using Cons.prems(2) by simp
  have lt: "setter_index ?g2 < int ?K" using fr(2) K by simp
  have ge: "- 1 \<le> setter_index ?g2" using fr(2) by simp
  have nx: "(setter_index ?g2 + 1) mod int ?K = int (Suc m mod ?K)"
  proof -
    have "(int (m mod ?K) + 1) mod int ?K = int ((m mod ?K + 1) mod ?K)"
      by (simp add: zmod_int add.commute)
    also have "(m mod ?K + 1) mod ?K = Suc m mod ?K"
      by (simp add: mod_Suc_eq)
    finally show ?thesis using fr(2) by simp
  qed
  have all: "\<forall>es\<in>set ess. list_all in_round es" using Cons.prems(7) by simp
  have ih: "map question_setter gs' =
      map (\<lambda>i. Some (roster ! ((Suc m + i) mod ?K))) [0..<length ess] \<and>
      list_all round_state_empty gs' \<and> list_all (\<lambda>h. players h = roster) gs' \<and>
      players g' = roster"
    by (rule Cons.IH [OF fr(1) Cons.prems(2) fin ge lt nx all rest])
  have q1: "question_setter g1 = Some (roster ! (m mod ?K))"
    using ni Cons.prems(1) by (simp add: g1_def)
  have e1: "round_state_empty g1" by (simp add: g1_def round_state_empty_def)
  have p1: "players g1 = roster" using Cons.prems(1) by (simp add: g1_def)
  have "map (\<lambda>i. Some (roster ! ((m + i) mod ?K))) [0..<length (es # ess)] =
      Some (roster ! (m mod ?K)) # map (\<lambda>i. Some (roster ! ((Suc m + i) mod ?K))) [0..<length ess]"
    by (simp add: map_upt_Suc del: upt_Suc)
  then show ?case using ih q1 e1 p1 gs by simp
qed

section \<open>Starting a round\<close>

text \<open>
  C3. The claim: \<^verbatim>\<open>StartRound\<close> on an empty roster is a no-op that raises nothing.
  On the new game, whose roster is empty, \<^verbatim>\<open>start_round\<close> raises IndexError, after it
  has moved the setter index from -1 to 0; the channel command \<^verbatim>\<open>!nextround\<close> reaches
  that call unguarded.
\<close>

theorem start_round_empty_roster_raises:
  "players Game = [] \<and>
   start_round Game = Inl (IndexError, Game\<lparr>setter_index := 0\<rparr>) \<and>
   handle_channel_message 1 ''!nextround'' [] Game = Inl (IndexError, Game\<lparr>setter_index := 0\<rparr>)"
  by (simp add: handle_channel_message_def startswith_def start_round_def Game_def py_index_def)

lemma four_rounds_played: "play_rounds four_rounds (add_loop [1, 2, 3] Game) \<noteq> None"
  by code_simp

lemma four_rounds_in_round: "list_all (list_all in_round) four_rounds"
  by code_simp

text \<open>
  The rotation from the initial cursor. Take a game with a non-empty roster, the cursor
  at its initial value -1 and no setter, and play \<open>N\<close> consecutive completed rounds
  whose events leave the roster alone. Then the \<open>N\<close> calls of \<^verbatim>\<open>start_round\<close>
  choose as setters the roster cycled from its first entry, the \<open>i\<close>-th call the
  entry \<open>i mod K\<close>, each call returns a game whose round-scoped fields are empty, and
  the roster stays as it was.
\<close>

lemma rotation_from_initial_cursor:
  assumes "players g = roster" "roster \<noteq> []" "question_setter g = None" "setter_index g = - 1"
    and "list_all (list_all in_round) ess"
    and "play_rounds ess g = Some (gs, g')"
  shows "length gs = length ess \<and>
         map question_setter gs = map (\<lambda>i. Some (roster ! (i mod length roster))) [0..<length ess] \<and>
         list_all round_state_empty gs \<and> list_all (\<lambda>h. players h = roster) gs \<and>
         players g' = roster"
proof -
  have cyc: "map question_setter gs = map (\<lambda>i. Some (roster ! ((0 + i) mod length roster))) [0..<length ess] \<and>
         list_all round_state_empty gs \<and> list_all (\<lambda>h. players h = roster) gs \<and>
         players g' = roster"
    using assms(1,2,3) _ _ _ _ assms(6)
  proof (rule play_rounds_cycle)
    show "\<forall>es\<in>set ess. list_all in_round es" using assms(5) by (simp add: list_all_iff)
    show "- 1 \<le> setter_index g" using assms(4) by simp
    show "setter_index g < int (length roster)" using assms(4) by simp
    show "(setter_index g + 1) mod int (length roster) = int (0 mod length roster)"
      using assms(4) by simp
  qed
  then have "map question_setter gs =
      map (\<lambda>i. Some (roster ! ((0 + i) mod length roster))) [0..<length ess]" by blast
  from arg_cong [OF this, of length] have "length gs = length ess" by simp
  with cyc show ?thesis by simp
qed

lemma rotation_four_rounds:
  "players (add_loop [1, 2, 3] Game) = [1, 2, 3] \<and>
   question_setter (add_loop [1, 2, 3] Game) = None \<and>
   setter_index (add_loop [1, 2, 3] Game) = - 1 \<and>
   list_all (list_all in_round) four_rounds \<and>
   play_rounds four_rounds (add_loop [1, 2, 3] Game) \<noteq> None \<and>
   map question_setter (fst (the (play_rounds four_rounds (add_loop [1, 2, 3] Game)))) =
     [Some 1, Some 2, Some 3, Some 1] \<and>
   list_all round_state_empty (fst (the (play_rounds four_rounds (add_loop [1, 2, 3] Game))))"
proof -
  let ?g = "add_loop [1, 2, 3] Game"
  have a: "players ?g = [1, 2, 3]" by code_simp
  have b: "question_setter ?g = None" by code_simp
  have c: "setter_index ?g = - 1" by code_simp
  have d: "[1, 2, 3 :: player] \<noteq> []" by simp
  obtain gs g' where p: "play_rounds four_rounds ?g = Some (gs, g')"
    using four_rounds_played by fastforce
  have e: "map (\<lambda>i. Some ([1, 2, 3 :: player] ! (i mod length [1, 2, 3 :: player])))
      [0..<length four_rounds] = [Some 1, Some 2, Some 3, Some 1]"
    by code_simp
  have "map question_setter gs = [Some 1, Some 2, Some 3, Some 1] \<and> list_all round_state_empty gs"
    using rotation_from_initial_cursor [OF a d b c four_rounds_in_round p] e by simp
  then show ?thesis
    using a b c four_rounds_in_round p by simp
qed

text \<open>
  C4. The claim: over consecutive completed rounds with a fixed roster the setters are
  the roster cycled from index 0 in the first round. The rotation starts behind the
  cursor, and \<^verbatim>\<open>start_round\<close> on the empty roster moves the cursor from -1 to 0
  before it raises. In the session where \<^verbatim>\<open>!nextround\<close> precedes the join of the
  players 1, 2 and 3, the roster is fixed from the first round on, every round
  completes, and the setters of the first four rounds are 2, 3, 1 and 2: the first
  round starts at roster index 1. Each \<^verbatim>\<open>start_round\<close> does leave the round-scoped
  fields empty.
\<close>

theorem first_setter_after_failed_start:
  "raised (step (ChannelMsg 1 ''!nextround'' []) Game) = Some IndexError \<and>
   setter_index (exec [ChannelMsg 1 ''!nextround'' []] Game) = 0 \<and>
   players (exec session_round1 Game) = [1, 2, 3] \<and>
   question_setter (exec session_round1 Game) = Some 2 \<and>
   setter_index (exec session_round1 Game) = 1 \<and>
   round_state_empty (exec session_round1 Game) \<and>
   question_setter (exec (session_round1 @ round_events 2 1 3) Game) = None \<and>
   question_setter (exec session_round2 Game) = Some 3 \<and>
   question_setter (exec (session_round2 @ round_events 3 1 2) Game) = None \<and>
   question_setter (exec session_round3 Game) = Some 1 \<and>
   question_setter (exec (session_round3 @ round_events 1 2 3) Game) = None \<and>
   question_setter (exec session_round4 Game) = Some 2 \<and>
   round_state_empty (exec session_round4 Game) \<and>
   players (exec session_round4 Game) = [1, 2, 3]"
  by code_simp

section \<open>The scenario, evaluated\<close>

lemma scenario_select_state:
  "exec scenario_select Game =
     \<lparr>players = [1, 2, 3], scores = [(1, 0), (2, 0), (3, 0)], setter_index = 0,
      question_setter = Some 1, question = Some ''favorite food'',
      answers = [(2, ''pizza''), (3, ''tacos'')], answer_selection_list = None,
      correct_answer = Some 2, vote_messages = [(101, 3), (102, 2)],
      votes = [(3, 0), (2, 0)]\<rparr>"
  by code_simp

lemma scenario_votes_state:
  "exec scenario_votes Game =
     \<lparr>players = [1, 2, 3], scores = [(1, 0), (2, 0), (3, 0)], setter_index = 0,
      question_setter = None, question = Some ''favorite food'',
      answers = [(2, ''pizza''), (3, ''tacos'')], answer_selection_list = None,
      correct_answer = Some 2, vote_messages = [(101, 3), (102, 2)],
      votes = [(3, 2), (2, 2)]\<rparr>"
  by code_simp

lemma scenario_first_vote_state:
  "exec (scenario_select @ [Reaction (Some 2) KeycapTwo 101]) Game =
     \<lparr>players = [1, 2, 3], scores = [(1, 0), (2, 0), (3, 0)], setter_index = 0,
      question_setter = Some 1, question = Some ''favorite food'',
      answers = [(2, ''pizza''), (3, ''tacos'')], answer_selection_list = None,
      correct_answer = Some 2, vote_messages = [(101, 3), (102, 2)],
      votes = [(3, 0), (2, 2)]\<rparr>"
  by code_simp

lemma scenario_pool_state:
  "exec (take 4 scenario_select) Game =
     \<lparr>players = [1, 2, 3], scores = [(1, 0), (2, 0), (3, 0)], setter_index = 0,
      question_setter = Some 1, question = Some ''favorite food'',
      answers = [(2, ''pizza''), (3, ''tacos'')],
      answer_selection_list = Some [(2, ''pizza''), (3, ''tacos'')],
      correct_answer = None, vote_messages = [], votes = []\<rparr>"
  by code_simp

lemma question_set_state:
  "exec (take 2 scenario_select) Game =
     \<lparr>players = [1, 2, 3], scores = [(1, 0), (2, 0), (3, 0)], setter_index = 0,
      question_setter = Some 1, question = Some ''favorite food'',
      answers = [], answer_selection_list = None,
      correct_answer = None, vote_messages = [], votes = []\<rparr>"
  by code_simp

lemma first_answer_state:
  "state_of (handle_player_message 2 '' pizza '' [] vote_post (exec (take 2 scenario_select) Game)) =
     \<lparr>players = [1, 2, 3], scores = [(1, 0), (2, 0), (3, 0)], setter_index = 0,
      question_setter = Some 1, question = Some ''favorite food'',
      answers = [(2, ''pizza'')], answer_selection_list = None,
      correct_answer = None, vote_messages = [], votes = []\<rparr>"
  unfolding question_set_state by code_simp

section \<open>Voting\<close>

text \<open>
  C1. The claim: while voting is open the keys of \<^verbatim>\<open>votes\<close> are exactly the roster,
  the setter included, so that in the scenario the round is not complete after the votes
  of B and C alone. The code enters in \<^verbatim>\<open>votes\<close> the players who submitted an answer.
  As amended: in every state that a session reaches and in which a correct answer is
  chosen, the keys of \<^verbatim>\<open>votes\<close> are exactly the keys of \<^verbatim>\<open>answers\<close>, and the active
  setter is not among them; in the scenario \<^verbatim>\<open>votes\<close> is \<open>{C: 0, B: 0}\<close> when voting
  opens, and the round is complete (the setter is cleared) after the votes of B and C.
\<close>

theorem voters_are_answerers:
  "(correct_answer (exec es Game) \<noteq> None \<longrightarrow>
      fst ` set (votes (exec es Game)) = fst ` set (answers (exec es Game)) \<and>
      (\<forall>s. question_setter (exec es Game) = Some s \<longrightarrow> s \<notin> fst ` set (votes (exec es Game)))) \<and>
   votes (exec scenario_select Game) = [(3, 0), (2, 0)] \<and>
   question_setter (exec scenario_select Game) = Some 1 \<and>
   votes (exec scenario_votes Game) = [(3, 2), (2, 2)] \<and>
   question_setter (exec scenario_votes Game) = None"
proof -
  let ?g = "exec es Game"
  have inv: "round_inv ?g" by (rule reachable_invs)
  have general: "correct_answer ?g \<noteq> None \<longrightarrow>
      fst ` set (votes ?g) = fst ` set (answers ?g) \<and>
      (\<forall>s. question_setter ?g = Some s \<longrightarrow> s \<notin> fst ` set (votes ?g))"
  proof
    assume "correct_answer ?g \<noteq> None"
    then obtain p where "correct_answer ?g = Some p" by blast
    with inv have keys: "fst ` set (votes ?g) = fst ` set (answers ?g)"
      by (simp add: round_inv_def)
    from inv have "\<forall>s. question_setter ?g = Some s \<longrightarrow> s \<notin> fst ` set (answers ?g)"
      by (simp add: round_inv_def)
    with keys show "fst ` set (votes ?g) = fst ` set (answers ?g) \<and>
      (\<forall>s. question_setter ?g = Some s \<longrightarrow> s \<notin> fst ` set (votes ?g))" by simp
  qed
  have scenario: "votes (exec scenario_select Game) = [(3, 0), (2, 0)]"
    "question_setter (exec scenario_select Game) = Some 1"
    "votes (exec scenario_votes Game) = [(3, 2), (2, 2)]"
    "question_setter (exec scenario_votes Game) = None"
    by (simp_all add: scenario_select_state scenario_votes_state)
  show ?thesis
    using general scenario by blast
qed

theorem voters_are_answerers_witness:
  "correct_answer (exec scenario_select Game) \<noteq> None \<and>
   fst ` set (votes (exec scenario_select Game)) = fst ` set (answers (exec scenario_select Game)) \<and>
   question_setter (exec scenario_select Game) = Some 1 \<and>
   1 \<notin> fst ` set (votes (exec scenario_select Game))"
  using voters_are_answerers [of scenario_select] by (simp add: scenario_select_state)

text \<open>
  The claim as stated fails in the scenario: with voting open, the setter A is on the
  roster and is not a key of \<^verbatim>\<open>votes\<close>, and after the votes of B and C alone the
  round has completed.
\<close>

theorem voters_not_roster_counterexample:
  "correct_answer (exec scenario_select Game) \<noteq> None \<and>
   question_setter (exec scenario_select Game) = Some 1 \<and>
   1 \<in> set (players (exec scenario_select Game)) \<and>
   1 \<notin> fst ` set (votes (exec scenario_select Game)) \<and>
   1 \<notin> fst ` set (votes (exec scenario_votes Game)) \<and>
   question_setter (exec scenario_votes Game) = None"
  by (auto simp: scenario_select_state scenario_votes_state)

text \<open>
  C2. The claim: a vote of a tracked voter with a valid emoji on a message that is not a
  vote prompt is ignored silently. In the scenario with voting open, B reacts with the
  second keycap on the message 999, which is no vote prompt, while the same reaction on
  the prompt 101 is accepted: \<^verbatim>\<open>handle_reaction\<close> raises StopIteration. The game is
  left as it was.
\<close>

theorem untracked_prompt_raises:
  "accepts_vote 2 KeycapTwo 101 (exec scenario_select Game) \<and>
   999 \<notin> fst ` set (vote_messages (exec scenario_select Game)) \<and>
   handle_reaction (Some 2) KeycapTwo 999 (exec scenario_select Game) =
     Inl (StopIteration, exec scenario_select Game)"
  by (simp add: scenario_select_state accepts_vote_def handle_reaction_def)

text \<open>
  C5. In every state that a session reaches, a reaction that passes the guards of
  \<^verbatim>\<open>handle_reaction\<close> raises nothing, adds 1 or 2 to the weight of the voter and leaves
  the scores alone. When every weight is then at least 2 the setter is cleared; when
  some weight is below 2 the setter was set and stays as it was.
\<close>

theorem vote_completion:
  assumes "accepts_vote v em mid (exec es Game)"
  shows "raised (handle_reaction (Some v) em mid (exec es Game)) = None \<and>
    (\<exists>w. map_of (votes (exec es Game)) v = Some w \<and>
       votes (state_of (handle_reaction (Some v) em mid (exec es Game))) =
         AList.update v (w + (if em = KeycapTwo then 2 else 1)) (votes (exec es Game))) \<and>
    scores (state_of (handle_reaction (Some v) em mid (exec es Game))) = scores (exec es Game) \<and>
    (all_voted (state_of (handle_reaction (Some v) em mid (exec es Game))) \<longrightarrow>
       question_setter (state_of (handle_reaction (Some v) em mid (exec es Game))) = None) \<and>
    (\<not> all_voted (state_of (handle_reaction (Some v) em mid (exec es Game))) \<longrightarrow>
       question_setter (exec es Game) \<noteq> None \<and>
       question_setter (state_of (handle_reaction (Some v) em mid (exec es Game))) =
         question_setter (exec es Game))"
proof -
  let ?g = "exec es Game"
  have inv: "round_inv ?g" by (rule reachable_invs)
  obtain w where w: "map_of (votes ?g) v = Some w" and
    h: "handle_reaction (Some v) em mid ?g =
         (let g1 = ?g\<lparr>votes := AList.update v (w + (if em = KeycapTwo then 2 else 1)) (votes ?g)\<rparr>
          in if \<not> all_voted g1 then Inr g1
             else case correct_answer ?g of
                 None \<Rightarrow> Inl (KeyError, g1)
               | Some ca \<Rightarrow>
                  (case map_of (answers ?g) ca of
                     None \<Rightarrow> Inl (KeyError, g1)
                   | Some text \<Rightarrow> Inr (g1\<lparr>question_setter := None\<rparr>)))"
    using reaction_accepted [OF assms] by blast
  define g1 where "g1 = ?g\<lparr>votes := AList.update v (w + (if em = KeycapTwo then 2 else 1)) (votes ?g)\<rparr>"
  obtain ca where ca: "correct_answer ?g = Some ca"
    using assms by (auto simp: accepts_vote_def)
  then have "ca \<in> fst ` set (answers ?g)"
    using inv by (simp add: round_inv_def)
  then obtain t where t: "map_of (answers ?g) ca = Some t"
    using map_of_key by fastforce
  have res: "handle_reaction (Some v) em mid ?g =
      (if \<not> all_voted g1 then Inr g1 else Inr (g1\<lparr>question_setter := None\<rparr>))"
    using h ca t by (simp add: g1_def Let_def)
  have av: "all_voted (g1\<lparr>question_setter := None\<rparr>) = all_voted g1"
    by (simp add: all_voted_def)
  have stay: "question_setter ?g \<noteq> None" if "\<not> all_voted g1"
  proof
    assume "question_setter ?g = None"
    then have "all_voted ?g" using inv ca by (simp add: round_inv_def)
    then have "all_voted g1" unfolding g1_def using w by (rule all_voted_update) simp
    with that show False by simp
  qed
  show ?thesis
  proof (cases "all_voted g1")
    case True
    then show ?thesis using res w av by (simp add: state_of_def raised_def g1_def)
  next
    case False
    then show ?thesis using res w stay by (simp add: state_of_def raised_def g1_def)
  qed
qed

theorem vote_completion_witness:
  "accepts_vote 2 KeycapTwo 101 (exec scenario_select Game) \<and>
   \<not> all_voted (state_of (handle_reaction (Some 2) KeycapTwo 101 (exec scenario_select Game))) \<and>
   question_setter (state_of (handle_reaction (Some 2) KeycapTwo 101 (exec scenario_select Game))) = Some 1 \<and>
   accepts_vote 3 KeycapTwo 102 (exec (scenario_select @ [Reaction (Some 2) KeycapTwo 101]) Game) \<and>
   all_voted (state_of (handle_reaction (Some 3) KeycapTwo 102
       (exec (scenario_select @ [Reaction (Some 2) KeycapTwo 101]) Game))) \<and>
   question_setter (state_of (handle_reaction (Some 3) KeycapTwo 102
       (exec (scenario_select @ [Reaction (Some 2) KeycapTwo 101]) Game))) = None"
proof -
  have a: "accepts_vote 2 KeycapTwo 101 (exec scenario_select Game)"
    by (simp add: scenario_select_state accepts_vote_def)
  have b: "accepts_vote 3 KeycapTwo 102 (exec (scenario_select @ [Reaction (Some 2) KeycapTwo 101]) Game)"
    by (simp add: scenario_first_vote_state accepts_vote_def)
  have c: "\<not> all_voted (state_of (handle_reaction (Some 2) KeycapTwo 101 (exec scenario_select Game)))"
    by (simp add: scenario_select_state handle_reaction_def state_of_def all_voted_def)
  have d: "all_voted (state_of (handle_reaction (Some 3) KeycapTwo 102
       (exec (scenario_select @ [Reaction (Some 2) KeycapTwo 101]) Game)))"
    by (simp add: scenario_first_vote_state handle_reaction_def state_of_def all_voted_def)
  have e: "question_setter (exec scenario_select Game) = Some 1"
    by (simp add: scenario_select_state)
  show ?thesis
    using vote_completion [OF a] vote_completion [OF b] a b c d e by simp
qed

section \<open>Selecting an answer\<close>

text \<open>
  C6. For a selection pool of \<open>n\<close> entries, \<^verbatim>\<open>select_answer\<close> with the index 0 or
  \<open>n + 1\<close> returns the game unchanged, and with an index \<open>k\<close> from 1 to \<open>n\<close> it sets
  the correct answer to the player of the \<open>k\<close>-th entry and clears the pool.
\<close>

theorem select_answer_index:
  "select_answer 0 rnd post g = g \<and>
   select_answer (int (length (selection_pool g)) + 1) rnd post g = g \<and>
   (\<forall>k. 1 \<le> k \<and> k \<le> int (length (selection_pool g)) \<longrightarrow>
      correct_answer (select_answer k rnd post g) = Some (fst (selection_pool g ! nat (k - 1))) \<and>
      answer_selection_list (select_answer k rnd post g) = None \<and>
      selection_pool (select_answer k rnd post g) = [])"
  by (simp add: select_answer_def selection_pool_def Let_def post_votes_frame)

theorem select_answer_index_witness:
  "selection_pool (exec (take 4 scenario_select) Game) = [(2, ''pizza''), (3, ''tacos'')] \<and>
   (1::int) \<le> 2 \<and> 2 \<le> int (length (selection_pool (exec (take 4 scenario_select) Game))) \<and>
   correct_answer (select_answer 2 [0] vote_post (exec (take 4 scenario_select) Game)) = Some 3 \<and>
   answer_selection_list (select_answer 2 [0] vote_post (exec (take 4 scenario_select) Game)) = None"
proof -
  have p: "selection_pool (exec (take 4 scenario_select) Game) = [(2, ''pizza''), (3, ''tacos'')]"
    by (simp add: scenario_pool_state selection_pool_def)
  show ?thesis
    using select_answer_index [of "[0]" vote_post "exec (take 4 scenario_select) Game"] p
    by simp
qed

section \<open>Joining\<close>

text \<open>
  C7. After any sequence of events, the roster is the list of the players that the
  joins named, each once at its first occurrence; every score is 0. A further join
  raises nothing, adds the new players behind the roster and leaves the players already
  there at their positions (and, all scores being 0, at their scores).
\<close>

theorem join_roster:
  "players (exec es Game) = first_seen (concat (map joined es)) \<and>
   distinct (players (exec es Game)) \<and>
   scores (exec es Game) = map (\<lambda>p. (p, 0)) (players (exec es Game)) \<and>
   raised (add_players ps (exec es Game)) = None \<and>
   players (state_of (add_players ps (exec es Game))) = first_seen (players (exec es Game) @ ps) \<and>
   take (length (players (exec es Game))) (players (state_of (add_players ps (exec es Game))))
     = players (exec es Game)"
proof -
  have r: "roster_inv (exec es Game)" by (rule reachable_invs)
  have p: "players (exec es Game) = first_seen (concat (map joined es))"
    using exec_players [OF Game_invs(1), of es] by (simp add: Game_def)
  have t: "take (length (players (exec es Game))) (players (state_of (add_players ps (exec es Game))))
     = players (exec es Game)"
    by (simp add: add_players_def Let_def start_round_players add_loop_extends state_of_def [of "Inr _"])
  show ?thesis
    using r p t add_players_no_raise [OF r] add_players_players [of "exec es Game" ps]
    by (simp add: roster_inv_def)
qed

text \<open>
  What \<^verbatim>\<open>add_players\<close> does in every state that a session reaches: it raises
  nothing; when no setter is active and the roster has at least two players after the
  loop it calls \<^verbatim>\<open>start_round\<close>, which chooses a setter and leaves the round-scoped
  fields empty; otherwise it leaves the cursor, the setter and the round-scoped fields
  as they were.
\<close>

lemma add_players_starts_round:
  "raised (add_players ps (exec es Game)) = None \<and>
   (question_setter (exec es Game) = None \<and>
      2 \<le> length (players (state_of (add_players ps (exec es Game)))) \<longrightarrow>
        question_setter (state_of (add_players ps (exec es Game))) =
          Some (players (state_of (add_players ps (exec es Game))) !
                nat (setter_index (state_of (add_players ps (exec es Game))))) \<and>
        0 \<le> setter_index (state_of (add_players ps (exec es Game))) \<and>
        setter_index (state_of (add_players ps (exec es Game))) <
          int (length (players (state_of (add_players ps (exec es Game))))) \<and>
        round_state_empty (state_of (add_players ps (exec es Game)))) \<and>
   (\<not> (question_setter (exec es Game) = None \<and>
        2 \<le> length (players (state_of (add_players ps (exec es Game))))) \<longrightarrow>
        same_round_state (exec es Game) (state_of (add_players ps (exec es Game))))"
proof -
  let ?g = "exec es Game"
  let ?g1 = "add_loop ps ?g"
  have r: "roster_inv ?g" by (rule reachable_invs)
  then have r1: "roster_inv ?g1" by (rule add_loop_roster_inv)
  have pl: "players (state_of (add_players ps ?g)) = players ?g1"
    by (simp add: add_players_def Let_def start_round_players state_of_def [of "Inr _"])
  have qs: "question_setter ?g1 = question_setter ?g" by (simp add: add_loop_frame)
  show ?thesis
  proof (cases "question_setter ?g = None \<and> 2 \<le> length (players ?g1)")
    case True
    then have ne: "players ?g1 \<noteq> []" by auto
    have idx: "- 1 \<le> setter_index ?g1" using r1 by (simp add: roster_inv_def)
    have ap: "add_players ps ?g = start_round ?g1"
      using True qs by (simp add: add_players_def Let_def)
    have n: "0 \<le> next_index ?g1 \<and> next_index ?g1 < int (length (players ?g1))"
      using ne idx by (auto simp: next_index_def)
    show ?thesis
      unfolding pl using True n
      by (simp add: ap start_round_ok [OF _ ne idx] qs state_of_def raised_def round_state_empty_def)
  next
    case False
    then have ap: "add_players ps ?g = Inr ?g1"
      using qs by (auto simp: add_players_def Let_def)
    show ?thesis
      unfolding pl using False
      by (simp add: ap state_of_def raised_def same_round_state_def add_loop_frame)
  qed
qed

lemma add_players_starts_round_examples:
  "question_setter (exec [] Game) = None \<and>
   2 \<le> length (players (state_of (add_players [1, 2, 3] (exec [] Game)))) \<and>
   question_setter (state_of (add_players [1, 2, 3] (exec [] Game))) = Some 1 \<and>
   round_state_empty (state_of (add_players [1, 2, 3] (exec [] Game))) \<and>
   question_setter (exec scenario_select Game) \<noteq> None \<and>
   same_round_state (exec scenario_select Game)
     (state_of (add_players [4] (exec scenario_select Game)))"
proof -
  have a: "question_setter (exec [] Game) = None" by code_simp
  have b: "2 \<le> length (players (state_of (add_players [1, 2, 3] (exec [] Game))))"
    by code_simp
  have c: "question_setter (exec scenario_select Game) \<noteq> None"
    by code_simp
  have d: "question_setter (state_of (add_players [1, 2, 3] (exec [] Game))) = Some 1"
    by code_simp
  show ?thesis
    using add_players_starts_round [of "[1, 2, 3]" "[]"] add_players_starts_round [of "[4]" scenario_select]
      a b c d by blast
qed

text \<open>
  C8. The claim: a join starts the first round exactly when the roster had fewer than
  two players before the call, has at least two after it, and no round is active; any
  other join starts no round. \<^verbatim>\<open>add_players\<close> announces the call of
  \<^verbatim>\<open>start_round\<close> as the start of the first round, and tests for it that no setter
  is set, which also holds between two rounds. After the scenario's round is complete,
  with three players on the roster, the channel command \<^verbatim>\<open>!addplayers\<close> that names
  the present player A adds nobody and starts the second round: B is the setter and
  the round-scoped fields are empty.
\<close>

theorem join_between_rounds_starts_round:
  "players (exec scenario_votes Game) = [1, 2, 3] \<and>
   question_setter (exec scenario_votes Game) = None \<and>
   correct_answer (exec scenario_votes Game) = Some 2 \<and>
   raised (step (ChannelMsg 1 ''!addplayers @A'' [1]) (exec scenario_votes Game)) = None \<and>
   players (exec scenario_rejoin Game) = [1, 2, 3] \<and>
   question_setter (exec scenario_rejoin Game) = Some 2 \<and>
   setter_index (exec scenario_rejoin Game) = 1 \<and>
   round_state_empty (exec scenario_rejoin Game)"
  by code_simp

section \<open>Answers\<close>

text \<open>
  C9. In every state that a session reaches, when a player's private message is taken as
  an answer and a second message of the same player is taken as an answer right after
  it, \<^verbatim>\<open>answers\<close> holds for that player the stripped text of the second message and
  no other text.
\<close>

theorem last_answer_wins:
  assumes "accepts_answer p (exec es Game)"
    and "accepts_answer p (state_of (handle_player_message p t1 r1 post1 (exec es Game)))"
  shows "texts_of p (answers (state_of (handle_player_message p t2 r2 post2
             (state_of (handle_player_message p t1 r1 post1 (exec es Game)))))) = [strip t2] \<and>
         map_of (answers (state_of (handle_player_message p t2 r2 post2
             (state_of (handle_player_message p t1 r1 post1 (exec es Game)))))) p = Some (strip t2)"
proof -
  let ?g = "exec es Game"
  let ?g1 = "state_of (handle_player_message p t1 r1 post1 ?g)"
  have "round_inv ?g" by (rule reachable_invs)
  then have "round_inv ?g1" by (rule player_round_inv)
  then have d: "distinct (map fst (answers ?g1))" by (simp add: round_inv_def)
  have "answers (state_of (handle_player_message p t2 r2 post2 ?g1)) =
      AList.update p (strip t2) (answers ?g1)"
    using accepted_answers [OF assms(2)] by simp
  then show ?thesis
    using d by (simp add: texts_of_update update_conv')
qed

theorem last_answer_wins_witness:
  "accepts_answer 2 (exec (take 2 scenario_select) Game) \<and>
   accepts_answer 2 (state_of (handle_player_message 2 '' pizza '' [] vote_post
      (exec (take 2 scenario_select) Game))) \<and>
   answers (state_of (handle_player_message 2 '' pizza '' [] vote_post
      (exec (take 2 scenario_select) Game))) = [(2, ''pizza'')] \<and>
   strip ''pasta  '' = ''pasta'' \<and>
   texts_of 2 (answers (state_of (handle_player_message 2 ''pasta  '' [] vote_post
      (state_of (handle_player_message 2 '' pizza '' [] vote_post
         (exec (take 2 scenario_select) Game)))))) = [''pasta'']"
proof -
  have a: "accepts_answer 2 (exec (take 2 scenario_select) Game)"
    unfolding question_set_state by (simp add: accepts_answer_def truthy_str_def truthy_list_def)
  have b: "accepts_answer 2 (state_of (handle_player_message 2 '' pizza '' [] vote_post
      (exec (take 2 scenario_select) Game)))"
    unfolding first_answer_state by (simp add: accepts_answer_def truthy_str_def truthy_list_def)
  have c: "strip ''pasta  '' = ''pasta''" by code_simp
  show ?thesis
    using last_answer_wins [OF a b, of "''pasta  ''" "[]" vote_post] a b c
    by (simp add: first_answer_state)
qed

text \<open>
  C10. In every state that a session reaches, a chosen correct answer is a key of
  \<^verbatim>\<open>answers\<close>, so its text is found. While a selection list or a correct answer is
  set, an event either leaves \<^verbatim>\<open>answers\<close> as it is or is a \<^verbatim>\<open>start_round\<close> that
  empties all round-scoped fields together. Hence the lookup of the reveal in
  \<^verbatim>\<open>handle_reaction\<close> never raises KeyError.
\<close>

theorem chosen_answer_kept:
  "(\<forall>p. correct_answer (exec es Game) = Some p \<longrightarrow>
       p \<in> fst ` set (answers (exec es Game)) \<and>
       (\<exists>text. map_of (answers (exec es Game)) p = Some text)) \<and>
   (answer_selection_list (exec es Game) \<noteq> None \<or> correct_answer (exec es Game) \<noteq> None \<longrightarrow>
       answers (state_of (step e (exec es Game))) = answers (exec es Game) \<or>
       round_state_empty (state_of (step e (exec es Game)))) \<and>
   raised (handle_reaction member em mid (exec es Game)) \<noteq> Some KeyError"
proof -
  let ?g = "exec es Game"
  have inv: "round_inv ?g" by (rule reachable_invs)
  have a: "\<forall>p. correct_answer ?g = Some p \<longrightarrow>
       p \<in> fst ` set (answers ?g) \<and> (\<exists>text. map_of (answers ?g) p = Some text)"
  proof (intro allI impI)
    fix p assume "correct_answer ?g = Some p"
    then have "p \<in> fst ` set (answers ?g)" using inv by (simp add: round_inv_def)
    then show "p \<in> fst ` set (answers ?g) \<and> (\<exists>text. map_of (answers ?g) p = Some text)"
      using map_of_key [of p "answers ?g"] by simp
  qed
  have b: "answer_selection_list ?g \<noteq> None \<or> correct_answer ?g \<noteq> None \<longrightarrow>
       answers (state_of (step e ?g)) = answers ?g \<or> round_state_empty (state_of (step e ?g))"
    using step_answers_frozen [OF inv] by blast
  have c: "raised (handle_reaction member em mid ?g) \<noteq> Some KeyError"
    using reaction_round_inv [OF inv] by simp
  show ?thesis using a b c by blast
qed

theorem chosen_answer_kept_witness:
  "correct_answer (exec scenario_select Game) = Some 2 \<and>
   map_of (answers (exec scenario_select Game)) 2 = Some ''pizza'' \<and>
   answers (state_of (step (PlayerMsg 3 ''late'' [] vote_post) (exec scenario_select Game))) =
     answers (exec scenario_select Game) \<and>
   \<not> round_state_empty (state_of (step (PlayerMsg 3 ''late'' [] vote_post) (exec scenario_select Game))) \<and>
   raised (handle_reaction (Some 3) KeycapTwo 102
      (exec (scenario_select @ [Reaction (Some 2) KeycapTwo 101]) Game)) = None"
proof -
  have a: "correct_answer (exec scenario_select Game) = Some 2" by code_simp
  have b: "map_of (answers (exec scenario_select Game)) 2 = Some ''pizza''" by code_simp
  have c: "\<not> round_state_empty (state_of (step (PlayerMsg 3 ''late'' [] vote_post) (exec scenario_select Game)))"
    by code_simp
  have d: "raised (handle_reaction (Some 3) KeycapTwo 102
      (exec (scenario_select @ [Reaction (Some 2) KeycapTwo 101]) Game)) = None" by code_simp
  show ?thesis
    using chosen_answer_kept [of scenario_select "PlayerMsg 3 ''late'' [] vote_post" "Some 2" KeycapTwo 101]
      a b c d by blast
qed

end
